theory Spec2Isabelle
  imports Main
begin

section \<open>The schedule package of go-timescheduler\<close>

text \<open>
  A shallow embedding of the package \<open>schedule\<close> (the second file of
  \<open>src/cmd/timer.go\<close>): \<open>TimespanBucket\<close>, \<open>Scheduler\<close>, \<open>NewScheduler\<close>,
  \<open>update\<close>, \<open>AddReminder\<close>, \<open>Due\<close> and \<open>Dump\<close>.

  A \<open>time.Time\<close> is a point on the integer line (nanoseconds) and a
  \<open>time.Duration\<close> an integer number of nanoseconds; \<open>Before\<close> and \<open>After\<close> are
  \<open><\<close> and \<open>>\<close>, \<open>Add\<close> is \<open>+\<close>. A \<open>Duration\<close> is an \<open>int64\<close>: the
  one product of durations in the package, \<open>time.Duration(i) * blockSize\<close>, wraps around
  as Go's multiplication does (\<open>wrap64\<close>). Points in time are unbounded: the range of
  \<open>time.Time\<close> (seconds in an \<open>int64\<close>) is not reached by adding durations to clock
  readings.

  The package reads the wall clock with \<open>time.Now()\<close> in several places. A \<open>clock\<close>
  gives the successive readings one call of a function makes: reading number \<open>0\<close> is
  the first \<open>time.Now()\<close> the call evaluates, reading \<open>1\<close> the second, and so on.
  \<open>frozen t\<close> is the clock that does not advance while the call runs.

  The mutexes of the source serialise the public operations; one call is one atomic
  step here and the locks are not part of the state.
\<close>

type_synonym time = int
type_synonym duration = int
type_synonym clock = "nat \<Rightarrow> time"

text \<open>The value of a 64-bit signed integer after wrap-around (two's complement).\<close>

definition wrap64 :: "int \<Rightarrow> int" where
  "wrap64 x = (x + 2 ^ 63) mod 2 ^ 64 - 2 ^ 63"

definition frozen :: "time \<Rightarrow> clock" where
  "frozen t = (\<lambda>_. t)"

text \<open>The readings that remain after the first \<open>n\<close> have been made.\<close>

definition later :: "nat \<Rightarrow> clock \<Rightarrow> clock" where
  "later n clk = (\<lambda>i. clk (n + i))"

subsection \<open>Schedulable\<close>

text \<open>
  The interface \<open>Schedulable\<close> has the two accessors \<open>DueTime()\<close> and \<open>Id()\<close>; an item
  is the pair of what they return, the same at every call. (\<open>Id\<close> is a constant of HOL
  already, hence \<open>Id_str\<close>.)
\<close>

record Schedulable =
  DueTime :: time
  Id_str :: string

subsection \<open>TimespanBucket\<close>

record TimespanBucket =
  startTime :: time
  endTime :: time
  elements :: "Schedulable list"

definition NewTimespanBucket :: "time \<Rightarrow> time \<Rightarrow> TimespanBucket" where
  "NewTimespanBucket st en = \<lparr>startTime = st, endTime = en, elements = []\<rparr>"

text \<open>\<open>t.startTime.Before(in) && t.endTime.After(in)\<close>\<close>

definition Contains :: "TimespanBucket \<Rightarrow> time \<Rightarrow> bool" where
  "Contains t tin \<longleftrightarrow> startTime t < tin \<and> endTime t > tin"

definition AddEntity :: "Schedulable \<Rightarrow> TimespanBucket \<Rightarrow> TimespanBucket" where
  "AddEntity entity t = t\<lparr>elements := elements t @ [entity]\<rparr>"

text \<open>\<open>time.Now().After(t.endTime)\<close>, at the clock reading \<open>now\<close>.\<close>

definition Past :: "time \<Rightarrow> TimespanBucket \<Rightarrow> bool" where
  "Past now t \<longleftrightarrow> now > endTime t"

definition Size :: "TimespanBucket \<Rightarrow> nat" where
  "Size t = length (elements t)"

definition IsAfter :: "TimespanBucket \<Rightarrow> time \<Rightarrow> bool" where
  "IsAfter t dueTime \<longleftrightarrow> startTime t > dueTime"

definition IsBefore :: "TimespanBucket \<Rightarrow> time \<Rightarrow> bool" where
  "IsBefore t dueTime \<longleftrightarrow> endTime t < dueTime"

subsection \<open>Scheduler\<close>

record Scheduler =
  buckets :: "TimespanBucket list"
  blockSize :: duration
  numBlocks :: int

text \<open>The run-time panics of Go that the package can raise.\<close>

datatype panic = IndexOutOfRange | SliceBoundsOutOfRange

text \<open>
  The loop of \<open>NewScheduler\<close>, \<open>for i := 0; i < numBlocks; i++\<close>. Every iteration
  reads the clock again: iteration \<open>i\<close> uses reading \<open>i\<close>. The start of bucket \<open>i\<close> is
  \<open>time.Now().Add(time.Duration(i) * blockSize)\<close>.
\<close>

function NewScheduler_loop ::
  "clock \<Rightarrow> duration \<Rightarrow> int \<Rightarrow> int \<Rightarrow> TimespanBucket list \<Rightarrow> TimespanBucket list" where
  "NewScheduler_loop clk bsz n i bs =
     (if i < n then
        (let st = clk (nat i) + wrap64 (i * bsz);
             en = st + bsz
         in NewScheduler_loop clk bsz n (i + 1) (bs @ [NewTimespanBucket st en]))
      else bs)"
  by pat_completeness auto
termination
  by (relation "measure (\<lambda>(clk, bsz, n, i, bs). nat (n - i))") auto

declare NewScheduler_loop.simps [simp del]

definition NewScheduler :: "clock \<Rightarrow> duration \<Rightarrow> int \<Rightarrow> Scheduler" where
  "NewScheduler clk bsz n =
     \<lparr>buckets = NewScheduler_loop clk bsz n 0 [], blockSize = bsz, numBlocks = n\<rparr>"

subsection \<open>update\<close>

text \<open>
  The first loop of \<open>update\<close>: \<open>startIdx\<close> starts at \<open>0\<close> and becomes the index of the
  first bucket that is not \<open>Past()\<close>; when every bucket is past it stays \<open>0\<close>.
  The bucket at index \<open>idx\<close> is tested at reading \<open>idx\<close>.
\<close>

fun scanStart :: "clock \<Rightarrow> nat \<Rightarrow> TimespanBucket list \<Rightarrow> nat" where
  "scanStart clk idx [] = 0"
| "scanStart clk idx (b # bs) =
     (if \<not> Past (clk idx) b then idx else scanStart clk (Suc idx) bs)"

text \<open>The number of clock readings that loop makes.\<close>

fun scanReads :: "clock \<Rightarrow> nat \<Rightarrow> TimespanBucket list \<Rightarrow> nat" where
  "scanReads clk idx [] = idx"
| "scanReads clk idx (b # bs) =
     (if \<not> Past (clk idx) b then Suc idx else scanReads clk (Suc idx) bs)"

text \<open>
  The second loop, \<open>for i := 0; i < startIdx; i++\<close>: for every bucket \<open>i\<close> below
  \<open>startIdx\<close> that is not empty it appends \<open>s.buckets[0].elements\<close>.
\<close>

function salvage ::
  "TimespanBucket list \<Rightarrow> nat \<Rightarrow> nat \<Rightarrow> Schedulable list \<Rightarrow> Schedulable list" where
  "salvage bs startIdx i overdueItems =
     (if i < startIdx then
        salvage bs startIdx (Suc i)
          (if Size (bs ! i) > 0 then overdueItems @ elements (bs ! 0) else overdueItems)
      else overdueItems)"
  by pat_completeness auto
termination
  by (relation "measure (\<lambda>(bs, startIdx, i, overdueItems). startIdx - i)") auto

declare salvage.simps [simp del]

text \<open>
  The third loop, \<open>for j := 0; j <= startIdx; j++\<close>, which builds \<open>newBuckets\<close> from
  \<open>currentEndTime\<close> on.
\<close>

function grow ::
  "duration \<Rightarrow> nat \<Rightarrow> nat \<Rightarrow> time \<Rightarrow> TimespanBucket list \<Rightarrow> TimespanBucket list" where
  "grow bsz startIdx j currentEndTime newBuckets =
     (if j \<le> startIdx then
        grow bsz startIdx (Suc j) (currentEndTime + bsz)
          (newBuckets @ [NewTimespanBucket currentEndTime (currentEndTime + bsz)])
      else newBuckets)"
  by pat_completeness auto
termination
  by (relation "measure (\<lambda>(bsz, startIdx, j, cur, nbs). Suc startIdx - j)") auto

declare grow.simps [simp del]

text \<open>
  \<open>update\<close>. \<open>s.buckets[len(s.buckets)-1]\<close> panics when no bucket is left after
  \<open>s.buckets = s.buckets[startIdx:]\<close>; \<open>startIdx\<close> is then \<open>0\<close> and the state is as it
  was. In the second loop \<open>i < startIdx < len(s.buckets)\<close>, so its reads are in range.
\<close>

definition update :: "clock \<Rightarrow> Scheduler \<Rightarrow> panic + Scheduler" where
  "update clk s =
     (let startIdx = scanStart clk 0 (buckets s);
          overdueItems = salvage (buckets s) startIdx 0 [];
          rest = drop startIdx (buckets s)
      in if rest = [] then Inl IndexOutOfRange
         else
           (let currentEndTime = endTime (rest ! (length rest - 1));
                newBuckets = grow (blockSize s) startIdx 0 currentEndTime []
            in case rest @ newBuckets of
                 [] \<Rightarrow> Inl IndexOutOfRange
               | b # bs \<Rightarrow>
                   Inr (s\<lparr>buckets := b\<lparr>elements := elements b @ overdueItems\<rparr> # bs\<rparr>)))"

text \<open>The number of clock readings \<open>update\<close> makes.\<close>

definition updateReads :: "clock \<Rightarrow> Scheduler \<Rightarrow> nat" where
  "updateReads clk s = scanReads clk 0 (buckets s)"

subsection \<open>AddReminder\<close>

text \<open>The last loop of \<open>AddReminder\<close>: the first bucket that contains the due time.\<close>

fun addToContaining :: "Schedulable \<Rightarrow> TimespanBucket list \<Rightarrow> TimespanBucket list" where
  "addToContaining entity [] = []"
| "addToContaining entity (b # bs) =
     (if Contains b (DueTime entity) then AddEntity entity b # bs
      else b # addToContaining entity bs)"

definition AddReminder :: "clock \<Rightarrow> Schedulable \<Rightarrow> Scheduler \<Rightarrow> panic + Scheduler" where
  "AddReminder clk entity s =
     (case update clk s of
        Inl p \<Rightarrow> Inl p
      | Inr s1 \<Rightarrow>
          (let bs = buckets s1 in
           if bs = [] then Inl IndexOutOfRange
           else if IsAfter (bs ! 0) (DueTime entity) then
             Inr (s1\<lparr>buckets := bs[0 := AddEntity entity (bs ! 0)]\<rparr>)
           else if IsBefore (bs ! (length bs - 1)) (DueTime entity) then
             Inr (s1\<lparr>buckets := bs[length bs - 1 := AddEntity entity (bs ! (length bs - 1))]\<rparr>)
           else Inr (s1\<lparr>buckets := addToContaining entity bs\<rparr>)))"

subsection \<open>Due\<close>

text \<open>
  The first loop of \<open>Due\<close>, over \<open>bucket.elements\<close> with the index \<open>i\<close>: the element at
  index \<open>i\<close> is compared with reading \<open>i\<close> of the clock the loop is given.
\<close>

fun collectDue ::
  "clock \<Rightarrow> nat \<Rightarrow> Schedulable list \<Rightarrow> Schedulable list \<times> int list
     \<Rightarrow> Schedulable list \<times> int list" where
  "collectDue clk i [] acc = acc"
| "collectDue clk i (entity # es) (dueItems, removeIdxs) =
     (if DueTime entity < clk i
      then collectDue clk (Suc i) es (dueItems @ [entity], removeIdxs @ [int i])
      else collectDue clk (Suc i) es (dueItems, removeIdxs))"

text \<open>
  \<open>append(elements[:realIdx], elements[realIdx+1:]...)\<close>; the slice expressions panic
  when \<open>realIdx\<close> is negative or \<open>realIdx + 1\<close> exceeds the length.
\<close>

definition removeAt :: "int \<Rightarrow> 'a list \<Rightarrow> panic + 'a list" where
  "removeAt realIdx xs =
     (if realIdx < 0 \<or> int (length xs) < realIdx + 1 then Inl SliceBoundsOutOfRange
      else Inr (take (nat realIdx) xs @ drop (nat (realIdx + 1)) xs))"

text \<open>The second loop, \<open>for i, idx := range removeIdxs\<close> with \<open>realIdx := idx - i\<close>.\<close>

fun shuffle :: "int \<Rightarrow> int list \<Rightarrow> 'a list \<Rightarrow> panic + 'a list" where
  "shuffle i [] xs = Inr xs"
| "shuffle i (idx # idxs) xs =
     (case removeAt (idx - i) xs of
        Inl p \<Rightarrow> Inl p
      | Inr xs' \<Rightarrow> shuffle (i + 1) idxs xs')"

definition Due :: "clock \<Rightarrow> Scheduler \<Rightarrow> panic + (Schedulable list \<times> Scheduler)" where
  "Due clk s =
     (case update clk s of
        Inl p \<Rightarrow> Inl p
      | Inr s1 \<Rightarrow>
          (case buckets s1 of
             [] \<Rightarrow> Inl IndexOutOfRange
           | bucket # bs \<Rightarrow>
               (let (dueItems, removeIdxs) =
                      collectDue (later (updateReads clk s) clk) 0 (elements bucket) ([], [])
                in case shuffle 0 removeIdxs (elements bucket) of
                     Inl p \<Rightarrow> Inl p
                   | Inr es \<Rightarrow> Inr (dueItems, s1\<lparr>buckets := bucket\<lparr>elements := es\<rparr> # bs\<rparr>))))"

subsection \<open>Dump\<close>

text \<open>
  \<open>Dump\<close> prints, for every bucket in order, its bounds and size and the identifiers
  of its elements; the printed data is returned here beside the state.
\<close>

definition describe :: "TimespanBucket \<Rightarrow> time \<times> time \<times> nat \<times> string list" where
  "describe t = (startTime t, endTime t, Size t, map Id_str (elements t))"

definition Dump ::
  "clock \<Rightarrow> Scheduler \<Rightarrow> panic + ((time \<times> time \<times> nat \<times> string list) list \<times> Scheduler)" where
  "Dump clk s =
     (case update clk s of
        Inl p \<Rightarrow> Inl p
      | Inr s1 \<Rightarrow> Inr (map describe (buckets s1), s1))"

section \<open>Auxiliary notions\<close>

text \<open>
  Consecutive buckets are contiguous when each one ends where the next one starts; a
  bucket is proper when it starts before it ends.
\<close>

fun contiguous :: "TimespanBucket list \<Rightarrow> bool" where
  "contiguous [] = True"
| "contiguous [b] = True"
| "contiguous (b # c # bs) = (endTime b = startTime c \<and> contiguous (c # bs))"

definition proper :: "TimespanBucket list \<Rightarrow> bool" where
  "proper bs = list_all (\<lambda>b. startTime b < endTime b) bs"

text \<open>\<open>n\<close> empty buckets of width \<open>bsz\<close> in a row, the first one starting at \<open>cur\<close>.\<close>

fun freshFrom :: "duration \<Rightarrow> time \<Rightarrow> nat \<Rightarrow> TimespanBucket list" where
  "freshFrom bsz cur 0 = []"
| "freshFrom bsz cur (Suc n) = NewTimespanBucket cur (cur + bsz) # freshFrom bsz (cur + bsz) n"

text \<open>
  What the two loops of \<open>Due\<close> compute, written without accumulators: the elements
  found due, the elements kept, and the indices recorded, when the element at index
  \<open>i\<close> is compared with reading \<open>i\<close>.
\<close>

fun dueFrom :: "clock \<Rightarrow> nat \<Rightarrow> Schedulable list \<Rightarrow> Schedulable list" where
  "dueFrom clk i [] = []"
| "dueFrom clk i (entity # es) =
     (if DueTime entity < clk i then entity # dueFrom clk (Suc i) es else dueFrom clk (Suc i) es)"

fun keptFrom :: "clock \<Rightarrow> nat \<Rightarrow> Schedulable list \<Rightarrow> Schedulable list" where
  "keptFrom clk i [] = []"
| "keptFrom clk i (entity # es) =
     (if DueTime entity < clk i then keptFrom clk (Suc i) es else entity # keptFrom clk (Suc i) es)"

fun idxsFrom :: "clock \<Rightarrow> nat \<Rightarrow> Schedulable list \<Rightarrow> int list" where
  "idxsFrom clk i [] = []"
| "idxsFrom clk i (entity # es) =
     (if DueTime entity < clk i then int i # idxsFrom clk (Suc i) es else idxsFrom clk (Suc i) es)"

text \<open>
  Example inputs: the wheel of three blocks of width 2 built at time 0 by a clock that
  does not advance; a wheel whose only bucket holds items due at 8, 9 and 15 and one
  whose only bucket holds items due at 10, 12, 12 and 20; the clock that advances by
  one nanosecond from one reading to the next, and the clock that reads \<open>t\<close> first and
  advances by \<open>d\<close> from one reading to the next.
\<close>

definition wheel3 :: Scheduler where
  "wheel3 = NewScheduler (frozen 0) 2 3"

definition head3 :: Scheduler where
  "head3 = \<lparr>buckets = [\<lparr>startTime = 9, endTime = 11, elements =
       [\<lparr>DueTime = 8, Id_str = ''a''\<rparr>, \<lparr>DueTime = 9, Id_str = ''b''\<rparr>,
        \<lparr>DueTime = 15, Id_str = ''c''\<rparr>]\<rparr>], blockSize = 2, numBlocks = 1\<rparr>"

definition ticking :: clock where
  "ticking i = int i"

definition head4 :: Scheduler where
  "head4 = \<lparr>buckets = [\<lparr>startTime = 9, endTime = 31, elements =
       [\<lparr>DueTime = 10, Id_str = ''a''\<rparr>, \<lparr>DueTime = 12, Id_str = ''b''\<rparr>,
        \<lparr>DueTime = 12, Id_str = ''c''\<rparr>, \<lparr>DueTime = 20, Id_str = ''d''\<rparr>]\<rparr>],
     blockSize = 22, numBlocks = 1\<rparr>"

definition linearClock :: "time \<Rightarrow> duration \<Rightarrow> clock" where
  "linearClock t d i = t + d * int i"

section \<open>Properties\<close>

subsection \<open>The loops of update\<close>

lemma grow_freshFrom:
  "grow bsz k j cur nbs = nbs @ freshFrom bsz cur (Suc k - j)"
proof (induction bsz k j cur nbs rule: grow.induct)
  case (1 bsz k j cur nbs)
  show ?case
  proof (cases "j \<le> k")
    case True
    then have "Suc k - j = Suc (Suc k - Suc j)" by simp
    with True 1 show ?thesis by (simp add: grow.simps [of bsz k j])
  next
    case False
    then show ?thesis by (simp add: grow.simps [of bsz k j])
  qed
qed

lemma length_freshFrom: "length (freshFrom bsz cur n) = n"
  by (induction n arbitrary: cur) auto

lemma scanStart_bound:
  "scanStart clk idx bs = 0 \<or>
   (idx \<le> scanStart clk idx bs \<and> scanStart clk idx bs < idx + length bs)"
proof (induction bs arbitrary: idx)
  case Nil
  then show ?case by simp
next
  case (Cons b bs)
  from Cons.IH [of "Suc idx"] show ?case by auto
qed

lemma scanStart_lt: "bs \<noteq> [] \<Longrightarrow> scanStart clk 0 bs < length bs"
  using scanStart_bound [of clk 0 bs] by auto

lemma scanStart_past:
  "idx \<le> i \<Longrightarrow> i < scanStart clk idx bs \<Longrightarrow> Past (clk i) (bs ! (i - idx))"
proof (induction bs arbitrary: idx)
  case Nil
  then show ?case by simp
next
  case (Cons b bs)
  show ?case
  proof (cases "i = idx")
    case True
    with Cons.prems show ?thesis by (auto split: if_splits)
  next
    case False
    with Cons.prems have "Suc idx \<le> i" "i < scanStart clk (Suc idx) bs"
      by (auto split: if_splits)
    then have "Past (clk i) (bs ! (i - Suc idx))" by (rule Cons.IH)
    moreover from \<open>Suc idx \<le> i\<close> have "i - idx = Suc (i - Suc idx)" by simp
    ultimately show ?thesis by simp
  qed
qed

lemma scanStart_live:
  "j < length bs \<Longrightarrow> \<not> Past (clk (idx + j)) (bs ! j) \<Longrightarrow>
   idx \<le> scanStart clk idx bs \<and> scanStart clk idx bs \<le> idx + j \<and>
   \<not> Past (clk (scanStart clk idx bs)) (bs ! (scanStart clk idx bs - idx))"
proof (induction bs arbitrary: idx j)
  case Nil
  then show ?case by simp
next
  case (Cons b bs)
  show ?case
  proof (cases "Past (clk idx) b")
    case False
    then show ?thesis by simp
  next
    case True
    with Cons.prems obtain j' where j': "j = Suc j'" by (cases j) auto
    with Cons.prems have "j' < length bs" "\<not> Past (clk (Suc idx + j')) (bs ! j')" by auto
    from Cons.IH [OF this] True show ?thesis
      by (auto simp: j' Suc_diff_le)
  qed
qed


lemma update_Nil: "buckets s = [] \<Longrightarrow> update clk s = Inl IndexOutOfRange"
  by (simp add: update_def)

lemma update_Cons:
  assumes "buckets s \<noteq> []"
  shows "update clk s =
    (let k = scanStart clk 0 (buckets s) in
     Inr (s\<lparr>buckets :=
       (buckets s ! k)\<lparr>elements := elements (buckets s ! k) @ salvage (buckets s) k 0 []\<rparr>
         # drop (Suc k) (buckets s)
         @ freshFrom (blockSize s) (endTime (last (buckets s))) (Suc k)\<rparr>))"
proof -
  define k where "k = scanStart clk 0 (buckets s)"
  have k: "k < length (buckets s)"
    unfolding k_def using assms(1) by (rule scanStart_lt)
  then have rest: "drop k (buckets s) = buckets s ! k # drop (Suc k) (buckets s)"
    by (simp add: Cons_nth_drop_Suc)
  have ne: "drop k (buckets s) \<noteq> []" using k by simp
  have "drop k (buckets s) \<noteq> []" using k by simp
  then have "drop k (buckets s) ! (length (drop k (buckets s)) - 1) = last (drop k (buckets s))"
    by (simp add: last_conv_nth)
  also have "\<dots> = last (buckets s)" using k by simp
  finally have lst: "drop k (buckets s) ! (length (drop k (buckets s)) - 1) = last (buckets s)" .
  show ?thesis
    unfolding update_def Let_def k_def [symmetric] lst grow_freshFrom
    using ne by (simp add: rest del: Cons_nth_drop_Suc)
qed

lemma update_Inr_iff: "(\<exists>s1. update clk s = Inr s1) \<longleftrightarrow> buckets s \<noteq> []"
  using update_Nil [of s clk] update_Cons [of s clk] by (cases "buckets s = []") (auto simp: Let_def)

lemma update_length:
  assumes "update clk s = Inr s1"
  shows "length (buckets s1) = Suc (length (buckets s))"
proof -
  from assms have ne: "buckets s \<noteq> []" using update_Nil [of s clk] by auto
  have k: "scanStart clk 0 (buckets s) < length (buckets s)"
    using ne by (rule scanStart_lt)
  from assms update_Cons [OF ne, of clk] k show ?thesis
    by (auto simp: length_freshFrom Let_def)
qed

lemma update_fields:
  assumes "update clk s = Inr s1"
  shows "blockSize s1 = blockSize s" and "numBlocks s1 = numBlocks s"
proof -
  from assms have ne: "buckets s \<noteq> []" using update_Nil [of s clk] by auto
  from assms update_Cons [OF ne, of clk] show "blockSize s1 = blockSize s" by (auto simp: Let_def)
  from assms update_Cons [OF ne, of clk] show "numBlocks s1 = numBlocks s" by (auto simp: Let_def)
qed

lemma salvage_eq:
  "salvage bs k i acc =
     acc @ concat (map (\<lambda>j. if 0 < Size (bs ! j) then elements (bs ! 0) else []) [i..<k])"
proof (induction bs k i acc rule: salvage.induct)
  case (1 bs k i acc)
  show ?case
  proof (cases "i < k")
    case True
    then have "[i..<k] = i # [Suc i..<k]" by (rule upt_conv_Cons)
    with True 1 show ?thesis by (simp add: salvage.simps [of bs k i])
  next
    case False
    then show ?thesis by (simp add: salvage.simps [of bs k i])
  qed
qed

lemma update_head:
  assumes "update clk s = Inr s1"
  shows "startTime (buckets s1 ! 0) = startTime (buckets s ! scanStart clk 0 (buckets s))"
    and "endTime (buckets s1 ! 0) = endTime (buckets s ! scanStart clk 0 (buckets s))"
    and "elements (buckets s1 ! 0) =
      elements (buckets s ! scanStart clk 0 (buckets s))
        @ salvage (buckets s) (scanStart clk 0 (buckets s)) 0 []"
proof -
  from assms have ne: "buckets s \<noteq> []" using update_Nil [of s clk] by auto
  from assms update_Cons [OF ne, of clk]
  have "buckets s1 ! 0 = (buckets s ! scanStart clk 0 (buckets s))
      \<lparr>elements := elements (buckets s ! scanStart clk 0 (buckets s))
         @ salvage (buckets s) (scanStart clk 0 (buckets s)) 0 []\<rparr>"
    by (auto simp: Let_def simp del: freshFrom.simps)
  then show "startTime (buckets s1 ! 0) = startTime (buckets s ! scanStart clk 0 (buckets s))"
    and "endTime (buckets s1 ! 0) = endTime (buckets s ! scanStart clk 0 (buckets s))"
    and "elements (buckets s1 ! 0) =
      elements (buckets s ! scanStart clk 0 (buckets s))
        @ salvage (buckets s) (scanStart clk 0 (buckets s)) 0 []"
    by simp_all
qed

lemma update_retained:
  assumes "update clk s = Inr s1"
    and "scanStart clk 0 (buckets s) < i" and "i < length (buckets s)"
  shows "buckets s1 ! (i - scanStart clk 0 (buckets s)) = buckets s ! i"
proof -
  define k where "k = scanStart clk 0 (buckets s)"
  from assms(1) have ne: "buckets s \<noteq> []" using update_Nil [of s clk] by auto
  from assms(1) update_Cons [OF ne, of clk]
  have bs1: "buckets s1 =
      (buckets s ! k)\<lparr>elements := elements (buckets s ! k) @ salvage (buckets s) k 0 []\<rparr>
        # (drop (Suc k) (buckets s)
        @ freshFrom (blockSize s) (endTime (last (buckets s))) (Suc k))"
    by (auto simp: Let_def k_def simp del: freshFrom.simps)
  from assms(2,3) have i: "i - k = Suc (i - Suc k)" "i - Suc k < length (drop (Suc k) (buckets s))"
    unfolding k_def by simp_all
  have "buckets s1 ! (i - k) = drop (Suc k) (buckets s) ! (i - Suc k)"
    unfolding bs1 i(1) using i(2) by (simp only: nth_Cons_Suc nth_append if_True)
  also have "\<dots> = buckets s ! i"
    using assms(2,3) unfolding k_def by simp
  finally show ?thesis unfolding k_def .
qed

subsection \<open>Contiguity\<close>

lemma contiguous_nth:
  "contiguous bs \<longleftrightarrow> (\<forall>i. Suc i < length bs \<longrightarrow> endTime (bs ! i) = startTime (bs ! Suc i))"
proof (induction bs rule: contiguous.induct)
  case 1
  show ?case by simp
next
  case (2 b)
  show ?case by simp
next
  case (3 b c bs)
  show ?case
  proof
    assume l: "contiguous (b # c # bs)"
    show "\<forall>i. Suc i < length (b # c # bs) \<longrightarrow>
        endTime ((b # c # bs) ! i) = startTime ((b # c # bs) ! Suc i)"
    proof (intro allI impI)
      fix i assume "Suc i < length (b # c # bs)"
      with l 3 show "endTime ((b # c # bs) ! i) = startTime ((b # c # bs) ! Suc i)"
        by (cases i) auto
    qed
  next
    assume r: "\<forall>i. Suc i < length (b # c # bs) \<longrightarrow>
        endTime ((b # c # bs) ! i) = startTime ((b # c # bs) ! Suc i)"
    from r [rule_format, of 0] have "endTime b = startTime c" by simp
    moreover have "contiguous (c # bs)"
      unfolding 3
    proof (intro allI impI)
      fix i assume "Suc i < length (c # bs)"
      with r [rule_format, of "Suc i"]
      show "endTime ((c # bs) ! i) = startTime ((c # bs) ! Suc i)" by simp
    qed
    ultimately show "contiguous (b # c # bs)" by simp
  qed
qed

lemma contiguous_drop: "contiguous bs \<Longrightarrow> contiguous (drop n bs)"
  by (auto simp: contiguous_nth)

lemma contiguous_append:
  "contiguous (xs @ ys) \<longleftrightarrow>
     contiguous xs \<and> contiguous ys \<and>
     (xs \<noteq> [] \<and> ys \<noteq> [] \<longrightarrow> endTime (last xs) = startTime (hd ys))"
proof (induction xs rule: contiguous.induct)
  case 1
  show ?case by simp
next
  case (2 b)
  show ?case by (cases ys) auto
next
  case (3 b c bs)
  then show ?case by auto
qed

lemma contiguous_bounds:
  "map startTime xs = map startTime ys \<Longrightarrow> map endTime xs = map endTime ys \<Longrightarrow>
   contiguous xs = contiguous ys"
proof -
  assume a: "map startTime xs = map startTime ys" and b: "map endTime xs = map endTime ys"
  from a have len: "length xs = length ys" by (rule map_eq_imp_length_eq)
  have "\<And>i. i < length xs \<Longrightarrow> startTime (xs ! i) = startTime (ys ! i)"
    using a len by (metis nth_map)
  moreover have "\<And>i. i < length xs \<Longrightarrow> endTime (xs ! i) = endTime (ys ! i)"
    using b len by (metis nth_map)
  ultimately show ?thesis
    using len by (auto simp: contiguous_nth)
qed

lemma contiguous_freshFrom: "contiguous (freshFrom bsz cur n)"
proof (induction n arbitrary: cur)
  case 0
  show ?case by simp
next
  case (Suc n)
  show ?case
  proof (cases n)
    case 0
    then show ?thesis by simp
  next
    case (Suc m)
    with Suc.IH [of "cur + bsz"] show ?thesis
      by (simp add: NewTimespanBucket_def)
  qed
qed

lemma hd_freshFrom: "startTime (hd (freshFrom bsz cur (Suc n))) = cur"
  by (simp add: NewTimespanBucket_def)

lemma proper_freshFrom: "0 < bsz \<Longrightarrow> proper (freshFrom bsz cur n)"
  by (induction n arbitrary: cur) (auto simp: proper_def NewTimespanBucket_def)

lemma update_contiguous:
  assumes "update clk s = Inr s1" and "contiguous (buckets s)"
  shows "contiguous (buckets s1)"
proof -
  from assms(1) have ne: "buckets s \<noteq> []" using update_Nil [of s clk] by auto
  define k where "k = scanStart clk 0 (buckets s)"
  have k: "k < length (buckets s)" unfolding k_def using ne by (rule scanStart_lt)
  define h where "h = (buckets s ! k)\<lparr>elements := elements (buckets s ! k) @ salvage (buckets s) k 0 []\<rparr>"
  define fresh where "fresh = freshFrom (blockSize s) (endTime (last (buckets s))) (Suc k)"
  from assms(1) update_Cons [OF ne, of clk]
  have bs1: "buckets s1 = (h # drop (Suc k) (buckets s)) @ fresh"
    by (auto simp: Let_def k_def h_def fresh_def)
  have dr: "drop k (buckets s) = buckets s ! k # drop (Suc k) (buckets s)"
    using k by (simp add: Cons_nth_drop_Suc)
  have "contiguous (drop k (buckets s))" using assms(2) by (rule contiguous_drop)
  moreover have "contiguous (h # drop (Suc k) (buckets s)) = contiguous (drop k (buckets s))"
    by (rule contiguous_bounds) (unfold dr h_def, simp_all)
  ultimately have c1: "contiguous (h # drop (Suc k) (buckets s))" by simp
  have "last (h # drop (Suc k) (buckets s)) = (if Suc k < length (buckets s) then last (buckets s) else h)"
    by simp
  moreover have "\<not> Suc k < length (buckets s) \<Longrightarrow> buckets s ! k = last (buckets s)"
  proof -
    assume "\<not> Suc k < length (buckets s)"
    with k have "k = length (buckets s) - 1" by simp
    with ne show ?thesis by (simp add: last_conv_nth)
  qed
  ultimately have "endTime (last (h # drop (Suc k) (buckets s))) = endTime (last (buckets s))"
    by (auto simp: h_def)
  then have "endTime (last (h # drop (Suc k) (buckets s))) = startTime (hd fresh)"
    unfolding fresh_def by (simp only: hd_freshFrom)
  with c1 show ?thesis
    unfolding bs1 contiguous_append fresh_def by (simp add: contiguous_freshFrom del: freshFrom.simps)
qed

subsection \<open>Order of the buckets and AddReminder\<close>

lemma proper_nth: "proper bs \<longleftrightarrow> (\<forall>i<length bs. startTime (bs ! i) < endTime (bs ! i))"
  by (simp add: proper_def list_all_length)

lemma update_proper:
  assumes "update clk s = Inr s1" and "proper (buckets s)" and "0 < blockSize s"
  shows "proper (buckets s1)"
proof -
  from assms(1) have ne: "buckets s \<noteq> []" using update_Nil [of s clk] by auto
  define k where "k = scanStart clk 0 (buckets s)"
  have k: "k < length (buckets s)" unfolding k_def using ne by (rule scanStart_lt)
  from assms(1) update_Cons [OF ne, of clk]
  have bs1: "buckets s1 =
      (buckets s ! k)\<lparr>elements := elements (buckets s ! k) @ salvage (buckets s) k 0 []\<rparr>
        # drop (Suc k) (buckets s)
        @ freshFrom (blockSize s) (endTime (last (buckets s))) (Suc k)"
    by (auto simp: Let_def k_def simp del: freshFrom.simps)
  have "startTime (buckets s ! k) < endTime (buckets s ! k)"
    using assms(2) k by (simp add: proper_nth)
  moreover have "list_all (\<lambda>b. startTime b < endTime b) (drop (Suc k) (buckets s))"
    using assms(2) by (simp add: proper_def list_all_iff) (meson in_set_dropD)
  moreover have "list_all (\<lambda>b. startTime b < endTime b)
      (freshFrom (blockSize s) (endTime (last (buckets s))) (Suc k))"
    using proper_freshFrom [OF assms(3)] by (simp only: proper_def)
  ultimately show ?thesis
    unfolding bs1 proper_def by (simp del: freshFrom.simps)
qed

lemma ordered_buckets:
  assumes "contiguous bs" and "proper bs"
  shows "i < j \<Longrightarrow> j < length bs \<Longrightarrow> endTime (bs ! i) \<le> startTime (bs ! j)"
proof (induction j)
  case 0
  then show ?case by simp
next
  case (Suc j)
  have step: "endTime (bs ! j) = startTime (bs ! Suc j)"
    using assms(1) Suc.prems(2) by (simp add: contiguous_nth)
  show ?case
  proof (cases "i = j")
    case True
    with step show ?thesis by simp
  next
    case False
    with Suc.prems have "i < j" "j < length bs" by simp_all
    then have "endTime (bs ! i) \<le> startTime (bs ! j)" by (rule Suc.IH)
    moreover have "startTime (bs ! j) < endTime (bs ! j)"
      using assms(2) \<open>j < length bs\<close> by (simp add: proper_nth)
    ultimately show ?thesis using step by simp
  qed
qed

lemma Contains_unique:
  assumes "contiguous bs" and "proper bs"
    and "i < length bs" and "j < length bs"
    and "Contains (bs ! i) d" and "Contains (bs ! j) d"
  shows "i = j"
proof (rule ccontr)
  assume "i \<noteq> j"
  then consider "i < j" | "j < i" by linarith
  then show False
  proof cases
    case 1
    from ordered_buckets [OF assms(1,2) 1 assms(4)] assms(5,6) show False
      by (simp add: Contains_def)
  next
    case 2
    from ordered_buckets [OF assms(1,2) 2 assms(3)] assms(5,6) show False
      by (simp add: Contains_def)
  qed
qed

lemma length_addToContaining: "length (addToContaining entity bs) = length bs"
  by (induction bs) auto

lemma addToContaining_none:
  "(\<forall>i<length bs. \<not> Contains (bs ! i) (DueTime entity)) \<Longrightarrow> addToContaining entity bs = bs"
proof (induction bs)
  case Nil
  show ?case by simp
next
  case (Cons b bs)
  from Cons.prems have "\<not> Contains b (DueTime entity)" by auto
  moreover from Cons.prems have "\<forall>i<length bs. \<not> Contains (bs ! i) (DueTime entity)" by auto
  ultimately show ?case using Cons.IH by simp
qed

lemma addToContaining_first:
  "i < length bs \<Longrightarrow> Contains (bs ! i) (DueTime entity) \<Longrightarrow>
   (\<forall>j<i. \<not> Contains (bs ! j) (DueTime entity)) \<Longrightarrow>
   addToContaining entity bs = bs[i := AddEntity entity (bs ! i)]"
proof (induction bs arbitrary: i)
  case Nil
  then show ?case by simp
next
  case (Cons b bs)
  show ?case
  proof (cases i)
    case 0
    with Cons.prems show ?thesis by simp
  next
    case (Suc m)
    with Cons.prems have nb: "\<not> Contains b (DueTime entity)" by auto
    from Suc Cons.prems have "m < length bs" "Contains (bs ! m) (DueTime entity)"
      "\<forall>j<m. \<not> Contains (bs ! j) (DueTime entity)" by auto
    from Cons.IH [OF this] nb Suc show ?thesis by simp
  qed
qed

lemma AddEntity_neq: "AddEntity entity b \<noteq> b"
proof
  assume "AddEntity entity b = b"
  then have "elements (AddEntity entity b) = elements b" by simp
  then show False by (simp add: AddEntity_def)
qed

lemma boundary_not_contained:
  assumes "contiguous bs" and "proper bs" and "i < length bs" and "j < length bs"
    and "d = startTime (bs ! i) \<or> d = endTime (bs ! i)"
  shows "\<not> Contains (bs ! j) d"
proof -
  have pi: "startTime (bs ! i) < endTime (bs ! i)" using assms(2,3) by (simp add: proper_nth)
  consider "j < i" | "j = i" | "i < j" by linarith
  then show ?thesis
  proof cases
    case 1
    from ordered_buckets [OF assms(1,2) 1 assms(3)] assms(5) pi show ?thesis
      by (auto simp: Contains_def)
  next
    case 2
    with assms(5) show ?thesis by (auto simp: Contains_def)
  next
    case 3
    from ordered_buckets [OF assms(1,2) 3 assms(4)] assms(5) pi show ?thesis
      by (auto simp: Contains_def)
  qed
qed

lemma uncontained_is_boundary:
  assumes "contiguous bs"
    and "\<forall>i<length bs. \<not> Contains (bs ! i) d"
  shows "j < length bs \<Longrightarrow> startTime (bs ! 0) \<le> d \<Longrightarrow> d \<le> endTime (bs ! j) \<Longrightarrow>
     \<exists>i\<le>j. d = startTime (bs ! i) \<or> d = endTime (bs ! i)"
proof (induction j)
  case 0
  with assms(2) have "\<not> Contains (bs ! 0) d" by simp
  with 0 have "d = startTime (bs ! 0) \<or> d = endTime (bs ! 0)"
    by (auto simp: Contains_def)
  then show ?case by blast
next
  case (Suc j)
  have step: "endTime (bs ! j) = startTime (bs ! Suc j)"
    using assms(1) Suc.prems(1) by (simp add: contiguous_nth)
  show ?case
  proof (cases "d \<le> endTime (bs ! j)")
    case True
    with Suc have "\<exists>i\<le>j. d = startTime (bs ! i) \<or> d = endTime (bs ! i)" by simp
    then show ?thesis using le_SucI by blast
  next
    case False
    from assms(2) Suc.prems(1) have "\<not> Contains (bs ! Suc j) d" by simp
    with False step Suc.prems(3) have "d = endTime (bs ! Suc j)"
      by (auto simp: Contains_def)
    then show ?thesis by blast
  qed
qed


lemma AddReminder_Inr:
  assumes "update clk s = Inr s1"
  shows "AddReminder clk entity s =
     Inr (s1\<lparr>buckets :=
       (if IsAfter (buckets s1 ! 0) (DueTime entity)
        then (buckets s1)[0 := AddEntity entity (buckets s1 ! 0)]
        else if IsBefore (buckets s1 ! (length (buckets s1) - 1)) (DueTime entity)
        then (buckets s1)[length (buckets s1) - 1 :=
               AddEntity entity (buckets s1 ! (length (buckets s1) - 1))]
        else addToContaining entity (buckets s1))\<rparr>)"
proof -
  from update_length [OF assms] have "buckets s1 \<noteq> []" by auto
  with assms show ?thesis by (simp add: AddReminder_def Let_def)
qed

subsection \<open>The loops of Due\<close>

lemma collectDue_acc:
  "collectDue clk i es (dueItems, removeIdxs) =
     (dueItems @ dueFrom clk i es, removeIdxs @ idxsFrom clk i es)"
  by (induction es arbitrary: i dueItems removeIdxs) auto

lemma removeAt_mid: "removeAt (int (length kept)) (kept @ x # xs) = Inr (kept @ xs)"
proof -
  have "nat (int (length kept) + 1) = Suc (length kept)" by simp
  then show ?thesis by (simp add: removeAt_def)
qed

lemma shuffle_idxsFrom:
  "length kept + c = i \<Longrightarrow>
   shuffle (int c) (idxsFrom clk i es) (kept @ es) = Inr (kept @ keptFrom clk i es)"
proof (induction es arbitrary: i c kept)
  case Nil
  show ?case by simp
next
  case (Cons e es)
  show ?case
  proof (cases "DueTime e < clk i")
    case True
    from Cons.prems have idx: "int i - int c = int (length kept)" by simp
    from Cons.prems have "length kept + Suc c = Suc i" by simp
    then have "shuffle (int (Suc c)) (idxsFrom clk (Suc i) es) (kept @ es) =
        Inr (kept @ keptFrom clk (Suc i) es)" by (rule Cons.IH)
    then have "shuffle (int c + 1) (idxsFrom clk (Suc i) es) (kept @ es) =
        Inr (kept @ keptFrom clk (Suc i) es)" by (simp add: add.commute)
    with True show ?thesis by (simp add: idx removeAt_mid)
  next
    case False
    from Cons.prems have "length (kept @ [e]) + c = Suc i" by simp
    then have "shuffle (int c) (idxsFrom clk (Suc i) es) ((kept @ [e]) @ es) =
        Inr ((kept @ [e]) @ keptFrom clk (Suc i) es)" by (rule Cons.IH)
    with False show ?thesis by simp
  qed
qed

lemma shuffle_collected:
  "shuffle 0 (idxsFrom clk 0 es) es = Inr (keptFrom clk 0 es)"
  using shuffle_idxsFrom [of "[]" 0 0 clk es] by simp

lemma dueFrom_frozen: "dueFrom (frozen now) i es = filter (\<lambda>e. DueTime e < now) es"
  by (induction es arbitrary: i) (auto simp: frozen_def)

lemma keptFrom_frozen: "keptFrom (frozen now) i es = filter (\<lambda>e. \<not> DueTime e < now) es"
  by (induction es arbitrary: i) (auto simp: frozen_def)

lemma later_frozen: "later n (frozen now) = frozen now"
  by (simp add: later_def frozen_def)

lemma Due_Inr:
  assumes "update clk s = Inr s1" and "buckets s1 = bucket # rest"
  shows "Due clk s =
     Inr (dueFrom (later (updateReads clk s) clk) 0 (elements bucket),
          s1\<lparr>buckets :=
            bucket\<lparr>elements := keptFrom (later (updateReads clk s) clk) 0 (elements bucket)\<rparr>
              # rest\<rparr>)"
  using assms by (simp add: Due_def collectDue_acc shuffle_collected)

lemma dueFrom_enumerate:
  "dueFrom clk i es = map snd (filter (\<lambda>(j, e). DueTime e < clk j) (enumerate i es))"
  by (induction es arbitrary: i) auto

lemma keptFrom_enumerate:
  "keptFrom clk i es = map snd (filter (\<lambda>(j, e). \<not> DueTime e < clk j) (enumerate i es))"
  by (induction es arbitrary: i) auto

lemma dueFrom_constant:
  "(\<forall>j<length es. clk (i + j) = now) \<Longrightarrow>
   dueFrom clk i es = filter (\<lambda>e. DueTime e < now) es"
proof (induction es arbitrary: i)
  case Nil
  show ?case by simp
next
  case (Cons e es)
  from Cons.prems have "clk (i + 0) = now" by blast
  then have h: "clk i = now" by simp
  have "\<forall>j<length es. clk (Suc i + j) = now"
  proof (intro allI impI)
    fix j assume "j < length es"
    then have "Suc j < length (e # es)" by simp
    with Cons.prems have "clk (i + Suc j) = now" by blast
    then show "clk (Suc i + j) = now" by simp
  qed
  then have "dueFrom clk (Suc i) es = filter (\<lambda>e. DueTime e < now) es" by (rule Cons.IH)
  with h show ?case by simp
qed

lemma keptFrom_constant:
  "(\<forall>j<length es. clk (i + j) = now) \<Longrightarrow>
   keptFrom clk i es = filter (\<lambda>e. \<not> DueTime e < now) es"
proof (induction es arbitrary: i)
  case Nil
  show ?case by simp
next
  case (Cons e es)
  from Cons.prems have "clk (i + 0) = now" by blast
  then have h: "clk i = now" by simp
  have "\<forall>j<length es. clk (Suc i + j) = now"
  proof (intro allI impI)
    fix j assume "j < length es"
    then have "Suc j < length (e # es)" by simp
    with Cons.prems have "clk (i + Suc j) = now" by blast
    then show "clk (Suc i + j) = now" by simp
  qed
  then have "keptFrom clk (Suc i) es = filter (\<lambda>e. \<not> DueTime e < now) es" by (rule Cons.IH)
  with h show ?case by simp
qed

subsection \<open>Every operation adds one bucket\<close>

lemma AddReminder_length:
  assumes "AddReminder clk entity s = Inr s2"
  shows "length (buckets s2) = Suc (length (buckets s))"
proof -
  from assms obtain s1 where up: "update clk s = Inr s1"
    by (cases "update clk s") (simp_all add: AddReminder_def)
  from assms AddReminder_Inr [OF up, of entity] update_length [OF up] show ?thesis
    by (auto simp: length_addToContaining)
qed

lemma Due_length:
  assumes "Due clk s = Inr (dueItems, s2)"
  shows "length (buckets s2) = Suc (length (buckets s))"
proof -
  from assms obtain s1 where up: "update clk s = Inr s1"
    by (cases "update clk s") (simp_all add: Due_def)
  from update_length [OF up] obtain bucket rest where bs1: "buckets s1 = bucket # rest"
    by (cases "buckets s1") auto
  from assms Due_Inr [OF up bs1] update_length [OF up] bs1 show ?thesis by auto
qed

lemma Dump_length:
  assumes "Dump clk s = Inr (out, s2)"
  shows "length (buckets s2) = Suc (length (buckets s))"
proof -
  from assms obtain s1 where up: "update clk s = Inr s1"
    by (cases "update clk s") (simp_all add: Dump_def)
  from assms up update_length [OF up] show ?thesis by (simp add: Dump_def)
qed

subsection \<open>NewScheduler\<close>

lemma NewScheduler_loop_done: "\<not> i < n \<Longrightarrow> NewScheduler_loop clk bsz n i bs = bs"
  by (simp add: NewScheduler_loop.simps [of clk bsz n i bs])

lemma NewScheduler_loop_eq:
  "NewScheduler_loop clk bsz n i bs =
     bs @ map (\<lambda>j. NewTimespanBucket (clk (nat j) + wrap64 (j * bsz))
                 (clk (nat j) + wrap64 (j * bsz) + bsz))
            [i..n - 1]"
proof (induction clk bsz n i bs rule: NewScheduler_loop.induct)
  case (1 clk bsz n i bs)
  show ?case
  proof (cases "i < n")
    case True
    then have "[i..n - 1] = i # [i + 1..n - 1]" by (simp add: upto_rec1)
    with True 1 show ?thesis
      by (simp add: NewScheduler_loop.simps [of clk bsz n i bs] Let_def)
  next
    case False
    then show ?thesis by (simp add: NewScheduler_loop.simps [of clk bsz n i bs])
  qed
qed

lemma NewScheduler_length: "length (buckets (NewScheduler clk bsz n)) = nat n"
  by (simp add: NewScheduler_def NewScheduler_loop_eq)

lemma NewScheduler_nth:
  assumes "i < nat n"
  shows "buckets (NewScheduler clk bsz n) ! i =
     NewTimespanBucket (clk i + wrap64 (int i * bsz)) (clk i + wrap64 (int i * bsz) + bsz)"
proof -
  from assms have "i < length [0..n - 1]" by simp
  moreover from assms have "[0..n - 1] ! i = int i" by simp
  ultimately show ?thesis
    by (simp add: NewScheduler_def NewScheduler_loop_eq del: length_upto)
qed

lemma wrap64_id: "- (2 ^ 63) \<le> x \<Longrightarrow> x < 2 ^ 63 \<Longrightarrow> wrap64 x = x"
  by (simp add: wrap64_def)

text \<open>
  When the clock does not advance during construction and no product
  \<open>time.Duration(i) * blockSize\<close> overflows, the buckets built are contiguous.
\<close>

lemma NewScheduler_frozen_contiguous:
  assumes "0 \<le> bsz" and "n * bsz < 2 ^ 63"
  shows "contiguous (buckets (NewScheduler (frozen t) bsz n))"
proof -
  have w: "wrap64 (int i * bsz) = int i * bsz" if "i < nat n" for i
  proof -
    from that have "int i \<le> n" by simp
    then have "int i * bsz \<le> n * bsz" using assms(1) by (rule mult_right_mono)
    with assms(2) have "int i * bsz < 2 ^ 63" by simp
    moreover from assms(1) have "0 \<le> int i * bsz" by simp
    ultimately show ?thesis by (simp add: wrap64_id)
  qed
  have "endTime (buckets (NewScheduler (frozen t) bsz n) ! i) =
      startTime (buckets (NewScheduler (frozen t) bsz n) ! Suc i)"
    if "Suc i < nat n" for i
  proof -
    from that have i: "i < nat n" by simp
    from NewScheduler_nth [OF i, of "frozen t" bsz] NewScheduler_nth [OF that, of "frozen t" bsz]
      w [OF i] w [OF that]
    show ?thesis
      by (simp add: NewTimespanBucket_def frozen_def algebra_simps)
  qed
  then show ?thesis by (simp add: contiguous_nth NewScheduler_length)
qed

text \<open>
  A product that leaves the range of \<open>int64\<close> wraps: with a block size of \<open>2 ^ 62\<close>
  nanoseconds the third bucket starts \<open>2 ^ 63\<close> nanoseconds before the clock reading.
\<close>

lemma NewScheduler_wraps:
  "startTime (buckets (NewScheduler (frozen 0) (2 ^ 62) 3) ! 2) = - (2 ^ 63)"
  by code_simp

subsection \<open>The operations keep contiguous buckets contiguous\<close>

lemma bounds_addToContaining:
  "map startTime (addToContaining entity bs) = map startTime bs"
  "map endTime (addToContaining entity bs) = map endTime bs"
  by (induction bs) (auto simp: AddEntity_def)

lemma map_update_same: "(map f xs)[i := f (xs ! i)] = map f xs"
proof (cases "i < length xs")
  case True
  then have "(map f xs)[i := f (xs ! i)] = (map f xs)[i := map f xs ! i]" by simp
  then show ?thesis by (simp only: list_update_id)
next
  case False
  then have "length (map f xs) \<le> i" by simp
  then show ?thesis by (rule list_update_beyond)
qed

lemma bounds_list_update_AddEntity:
  "map startTime (bs[i := AddEntity entity (bs ! i)]) = map startTime bs"
  "map endTime (bs[i := AddEntity entity (bs ! i)]) = map endTime bs"
  by (simp_all add: map_update AddEntity_def map_update_same)

lemma AddReminder_contiguous:
  assumes "AddReminder clk entity s = Inr s2" and "contiguous (buckets s)"
  shows "contiguous (buckets s2)"
proof -
  from assms(1) obtain s1 where up: "update clk s = Inr s1"
    by (cases "update clk s") (simp_all add: AddReminder_def)
  have c1: "contiguous (buckets s1)" using up assms(2) by (rule update_contiguous)
  from assms(1) AddReminder_Inr [OF up, of entity]
  have "map startTime (buckets s2) = map startTime (buckets s1)"
    and "map endTime (buckets s2) = map endTime (buckets s1)"
    by (auto simp: bounds_addToContaining bounds_list_update_AddEntity)
  then have "contiguous (buckets s2) = contiguous (buckets s1)" by (rule contiguous_bounds)
  with c1 show ?thesis by simp
qed

lemma Due_contiguous:
  assumes "Due clk s = Inr (dueItems, s2)" and "contiguous (buckets s)"
  shows "contiguous (buckets s2)"
proof -
  from assms(1) obtain s1 where up: "update clk s = Inr s1"
    by (cases "update clk s") (simp_all add: Due_def)
  have c1: "contiguous (buckets s1)" using up assms(2) by (rule update_contiguous)
  from update_length [OF up] obtain bucket rest where bs1: "buckets s1 = bucket # rest"
    by (cases "buckets s1") auto
  from assms(1) Due_Inr [OF up bs1] bs1
  have "map startTime (buckets s2) = map startTime (buckets s1)"
    and "map endTime (buckets s2) = map endTime (buckets s1)"
    by auto
  then have "contiguous (buckets s2) = contiguous (buckets s1)" by (rule contiguous_bounds)
  with c1 show ?thesis by simp
qed

lemma Dump_contiguous:
  assumes "Dump clk s = Inr (out, s2)" and "contiguous (buckets s)"
  shows "contiguous (buckets s2)"
proof -
  from assms(1) obtain s1 where up: "update clk s = Inr s1"
    by (cases "update clk s") (simp_all add: Dump_def)
  with assms(1) have "s2 = s1" by (simp add: Dump_def)
  with up assms(2) show ?thesis by (simp add: update_contiguous)
qed

section \<open>The claims\<close>

subsection \<open>Salvage of the items of elapsed buckets\<close>

text \<open>
  C1 (the code at a failing input). An item due at time 3 is added at time 0 to the wheel
  of three blocks and lands in the bucket from 2 to 4. At time 5 the buckets from 0 to 2
  and from 2 to 4 have both elapsed; \<open>update\<close> makes the bucket from 4 to 6 the head, and
  its item collection is empty: the item is in no bucket any more.
\<close>

theorem update_loses_item:
  "AddReminder (frozen 0) \<lparr>DueTime = 3, Id_str = ''A''\<rparr> wheel3 =
     Inr \<lparr>buckets = [NewTimespanBucket 0 2,
                      \<lparr>startTime = 2, endTime = 4, elements = [\<lparr>DueTime = 3, Id_str = ''A''\<rparr>]\<rparr>,
                      NewTimespanBucket 4 6, NewTimespanBucket 6 8],
          blockSize = 2, numBlocks = 3\<rparr> \<and>
   update (frozen 5)
     \<lparr>buckets = [NewTimespanBucket 0 2,
                 \<lparr>startTime = 2, endTime = 4, elements = [\<lparr>DueTime = 3, Id_str = ''A''\<rparr>]\<rparr>,
                 NewTimespanBucket 4 6, NewTimespanBucket 6 8],
      blockSize = 2, numBlocks = 3\<rparr> =
     Inr \<lparr>buckets = [NewTimespanBucket 4 6, NewTimespanBucket 6 8, NewTimespanBucket 8 10,
                      NewTimespanBucket 10 12, NewTimespanBucket 12 14],
          blockSize = 2, numBlocks = 3\<rparr> \<and>
   elements (NewTimespanBucket 4 6) = []"
  by code_simp

text \<open>
  The same loop can also copy an item twice: with an item in each of the two elapsed
  buckets, the item of the old head arrives twice and the other one not at all.
\<close>

lemma update_duplicates_item:
  "update (frozen 5)
     \<lparr>buckets = [\<lparr>startTime = 0, endTime = 2, elements = [\<lparr>DueTime = 1, Id_str = ''A''\<rparr>]\<rparr>,
                 \<lparr>startTime = 2, endTime = 4, elements = [\<lparr>DueTime = 3, Id_str = ''B''\<rparr>]\<rparr>,
                 NewTimespanBucket 4 6],
      blockSize = 2, numBlocks = 3\<rparr> =
     Inr \<lparr>buckets = [\<lparr>startTime = 4, endTime = 6, elements =
                        [\<lparr>DueTime = 1, Id_str = ''A''\<rparr>, \<lparr>DueTime = 1, Id_str = ''A''\<rparr>]\<rparr>,
                      NewTimespanBucket 6 8, NewTimespanBucket 8 10, NewTimespanBucket 10 12],
          blockSize = 2, numBlocks = 3\<rparr>"
  by code_simp

subsection \<open>Number of buckets\<close>

text \<open>
  C2 (the code at a failing input). The wheel built with \<open>numBlocks = 3\<close> has three
  buckets; after one \<open>Dump\<close> at the time of construction it has four.
\<close>

theorem Dump_grows_wheel:
  "numBlocks wheel3 = 3 \<and> length (buckets wheel3) = 3 \<and>
   Dump (frozen 0) wheel3 =
     Inr ([(0, 2, 0, []), (2, 4, 0, []), (4, 6, 0, []), (6, 8, 0, [])],
          \<lparr>buckets = [NewTimespanBucket 0 2, NewTimespanBucket 2 4, NewTimespanBucket 4 6,
                      NewTimespanBucket 6 8], blockSize = 2, numBlocks = 3\<rparr>)"
  by code_simp

text \<open>
  C3 (the code at a failing input). At time 0 no bucket of the wheel of three blocks
  has elapsed and \<open>startIdx\<close> is 0. One \<open>update\<close> gives four buckets, a second one, at
  the same time, gives five.
\<close>

theorem update_twice_differs:
  "scanStart (frozen 0) 0 (buckets wheel3) = 0 \<and>
   \<not> Past 0 (NewTimespanBucket 0 2) \<and>
   update (frozen 0) wheel3 =
     Inr \<lparr>buckets = [NewTimespanBucket 0 2, NewTimespanBucket 2 4, NewTimespanBucket 4 6,
                      NewTimespanBucket 6 8], blockSize = 2, numBlocks = 3\<rparr> \<and>
   update (frozen 0)
     \<lparr>buckets = [NewTimespanBucket 0 2, NewTimespanBucket 2 4, NewTimespanBucket 4 6,
                 NewTimespanBucket 6 8], blockSize = 2, numBlocks = 3\<rparr> =
     Inr \<lparr>buckets = [NewTimespanBucket 0 2, NewTimespanBucket 2 4, NewTimespanBucket 4 6,
                      NewTimespanBucket 6 8, NewTimespanBucket 8 10],
          blockSize = 2, numBlocks = 3\<rparr>"
  by code_simp

subsection \<open>Due\<close>

text \<open>
  C4 (as the code has it). \<open>Due\<close> on a wheel with at least one bucket, for every
  clock: after \<open>update\<close> (state \<open>s1\<close>) it reads the clock once for each element of the
  head bucket and returns the elements whose due time is strictly before the reading
  taken for them, in their order; it leaves in the head bucket the others, in their
  order, and leaves every other bucket as it is. When all those readings are the same
  time \<open>now\<close>, the elements returned are the ones due strictly before \<open>now\<close>; with head
  elements due at \<open>now - 2\<close>, \<open>now - 1\<close> and \<open>now + 5\<close> it then returns the first two and
  leaves the third.
\<close>

theorem Due_returns_due_at_reading:
  assumes "buckets s \<noteq> []"
  shows "\<exists>s1 bucket rest. update clk s = Inr s1 \<and> buckets s1 = bucket # rest \<and>
     Due clk s =
       Inr (map snd (filter (\<lambda>(i, e). DueTime e < clk (updateReads clk s + i))
                      (enumerate 0 (elements bucket))),
            s1\<lparr>buckets :=
              bucket\<lparr>elements :=
                map snd (filter (\<lambda>(i, e). \<not> DueTime e < clk (updateReads clk s + i))
                          (enumerate 0 (elements bucket)))\<rparr> # rest\<rparr>) \<and>
     (\<forall>now. (\<forall>i<length (elements bucket). clk (updateReads clk s + i) = now) \<longrightarrow>
        Due clk s =
          Inr (filter (\<lambda>e. DueTime e < now) (elements bucket),
               s1\<lparr>buckets :=
                 bucket\<lparr>elements := filter (\<lambda>e. \<not> DueTime e < now) (elements bucket)\<rparr>
                   # rest\<rparr>) \<and>
        (\<forall>a b c. elements bucket = [a, b, c] \<and> DueTime a = now - 2 \<and>
           DueTime b = now - 1 \<and> DueTime c = now + 5 \<longrightarrow>
           Due clk s = Inr ([a, b], s1\<lparr>buckets := bucket\<lparr>elements := [c]\<rparr> # rest\<rparr>)))"
proof -
  from assms obtain s1 where up: "update clk s = Inr s1"
    using update_Inr_iff [of clk s] by blast
  from update_length [OF up] obtain bucket rest where bs1: "buckets s1 = bucket # rest"
    by (cases "buckets s1") auto
  define r where "r = updateReads clk s"
  have raw: "Due clk s =
     Inr (dueFrom (later r clk) 0 (elements bucket),
          s1\<lparr>buckets := bucket\<lparr>elements := keptFrom (later r clk) 0 (elements bucket)\<rparr> # rest\<rparr>)"
    unfolding r_def using up bs1 by (rule Due_Inr)
  have per: "Due clk s =
       Inr (map snd (filter (\<lambda>(i, e). DueTime e < clk (r + i))
                      (enumerate 0 (elements bucket))),
            s1\<lparr>buckets :=
              bucket\<lparr>elements :=
                map snd (filter (\<lambda>(i, e). \<not> DueTime e < clk (r + i))
                          (enumerate 0 (elements bucket)))\<rparr> # rest\<rparr>)"
    using raw by (simp only: dueFrom_enumerate keptFrom_enumerate later_def)
  have const: "Due clk s =
          Inr (filter (\<lambda>e. DueTime e < now) (elements bucket),
               s1\<lparr>buckets :=
                 bucket\<lparr>elements := filter (\<lambda>e. \<not> DueTime e < now) (elements bucket)\<rparr>
                   # rest\<rparr>)"
    if c: "\<forall>i<length (elements bucket). clk (r + i) = now" for now
  proof -
    from c have "\<forall>j<length (elements bucket). later r clk (0 + j) = now"
      by (simp add: later_def)
    then have "dueFrom (later r clk) 0 (elements bucket) =
        filter (\<lambda>e. DueTime e < now) (elements bucket)"
      and "keptFrom (later r clk) 0 (elements bucket) =
        filter (\<lambda>e. \<not> DueTime e < now) (elements bucket)"
      by (rule dueFrom_constant, rule keptFrom_constant)
    with raw show ?thesis by simp
  qed
  have three: "Due clk s = Inr ([a, b], s1\<lparr>buckets := bucket\<lparr>elements := [c]\<rparr> # rest\<rparr>)"
    if "\<forall>i<length (elements bucket). clk (r + i) = now"
      and "elements bucket = [a, b, c] \<and> DueTime a = now - 2 \<and>
           DueTime b = now - 1 \<and> DueTime c = now + 5" for now a b c
    using const [OF that(1)] that(2) by simp
  from up bs1 per const three show ?thesis unfolding r_def by blast
qed

text \<open>
  The theorem at the wheel whose head holds items due at 8, 9 and 15, with the clock
  standing at 10.
\<close>

theorem Due_returns_due_at_reading_witness:
  "buckets head3 \<noteq> [] \<and>
   Due (frozen 10) head3 =
     Inr ([\<lparr>DueTime = 8, Id_str = ''a''\<rparr>, \<lparr>DueTime = 9, Id_str = ''b''\<rparr>],
          \<lparr>buckets = [\<lparr>startTime = 9, endTime = 11, elements = [\<lparr>DueTime = 15, Id_str = ''c''\<rparr>]\<rparr>,
                      NewTimespanBucket 11 13], blockSize = 2, numBlocks = 1\<rparr>)"
proof -
  have h: "buckets head3 \<noteq> []" by (simp add: head3_def)
  have u: "update (frozen 10) head3 =
      Inr \<lparr>buckets = [\<lparr>startTime = 9, endTime = 11, elements =
           [\<lparr>DueTime = 8, Id_str = ''a''\<rparr>, \<lparr>DueTime = 9, Id_str = ''b''\<rparr>,
            \<lparr>DueTime = 15, Id_str = ''c''\<rparr>]\<rparr>, NewTimespanBucket 11 13],
         blockSize = 2, numBlocks = 1\<rparr>"
    by code_simp
  from Due_returns_due_at_reading [OF h, of "frozen 10"] obtain s1 bucket rest where
    r: "update (frozen 10) head3 = Inr s1" "buckets s1 = bucket # rest"
      "\<forall>now. (\<forall>i<length (elements bucket). frozen 10 (updateReads (frozen 10) head3 + i) = now) \<longrightarrow>
        Due (frozen 10) head3 =
          Inr (filter (\<lambda>e. DueTime e < now) (elements bucket),
               s1\<lparr>buckets :=
                 bucket\<lparr>elements := filter (\<lambda>e. \<not> DueTime e < now) (elements bucket)\<rparr>
                   # rest\<rparr>)"
    by blast
  have "\<forall>i<length (elements bucket). frozen 10 (updateReads (frozen 10) head3 + i) = 10"
    by (simp add: frozen_def)
  with r(3) have d: "Due (frozen 10) head3 =
          Inr (filter (\<lambda>e. DueTime e < 10) (elements bucket),
               s1\<lparr>buckets :=
                 bucket\<lparr>elements := filter (\<lambda>e. \<not> DueTime e < 10) (elements bucket)\<rparr>
                   # rest\<rparr>)"
    by blast
  from r(1) u have s1: "s1 = \<lparr>buckets = [\<lparr>startTime = 9, endTime = 11, elements =
           [\<lparr>DueTime = 8, Id_str = ''a''\<rparr>, \<lparr>DueTime = 9, Id_str = ''b''\<rparr>,
            \<lparr>DueTime = 15, Id_str = ''c''\<rparr>]\<rparr>, NewTimespanBucket 11 13],
         blockSize = 2, numBlocks = 1\<rparr>" by simp
  with r(2) have "bucket = \<lparr>startTime = 9, endTime = 11, elements =
           [\<lparr>DueTime = 8, Id_str = ''a''\<rparr>, \<lparr>DueTime = 9, Id_str = ''b''\<rparr>,
            \<lparr>DueTime = 15, Id_str = ''c''\<rparr>]\<rparr>" "rest = [NewTimespanBucket 11 13]"
    by simp_all
  with d s1 h show ?thesis by simp
qed

text \<open>
  With a clock that reads 10 first and advances by one nanosecond per reading, \<open>update\<close>
  takes one reading and the four elements are examined at 11, 12, 13 and 14. The item
  \<open>b\<close>, due at 12 and examined at 12, is not returned, and the item \<open>c\<close>, due at 12 as
  well, is: no single current time separates the items returned from the items kept.
\<close>

theorem Due_advancing_clock_counterexample:
  "Due (linearClock 10 1) head4 =
     Inr ([\<lparr>DueTime = 10, Id_str = ''a''\<rparr>, \<lparr>DueTime = 12, Id_str = ''c''\<rparr>],
          \<lparr>buckets = [\<lparr>startTime = 9, endTime = 31, elements =
                        [\<lparr>DueTime = 12, Id_str = ''b''\<rparr>, \<lparr>DueTime = 20, Id_str = ''d''\<rparr>]\<rparr>,
                      NewTimespanBucket 31 53], blockSize = 22, numBlocks = 1\<rparr>) \<and>
   updateReads (linearClock 10 1) head4 = 1 \<and>
   linearClock 10 1 (1 + 1) = 12 \<and>
   DueTime \<lparr>DueTime = 12, Id_str = ''b''\<rparr> = DueTime \<lparr>DueTime = 12, Id_str = ''c''\<rparr>"
  by code_simp

text \<open>
  With the clock standing at 10, an item due at 10 is not returned.
\<close>

lemma Due_at_due_time:
  "Due (frozen 10)
     \<lparr>buckets = [\<lparr>startTime = 9, endTime = 11, elements = [\<lparr>DueTime = 10, Id_str = ''d''\<rparr>]\<rparr>],
      blockSize = 2, numBlocks = 1\<rparr> =
   Inr ([], \<lparr>buckets = [\<lparr>startTime = 9, endTime = 11,
                          elements = [\<lparr>DueTime = 10, Id_str = ''d''\<rparr>]\<rparr>,
                        NewTimespanBucket 11 13], blockSize = 2, numBlocks = 1\<rparr>) \<and>
   DueTime \<lparr>DueTime = 10, Id_str = ''d''\<rparr> \<le> 10"
  by code_simp

subsection \<open>The head bucket after update\<close>

text \<open>
  C5 (the code at a failing input). At time 100 every bucket of the wheel of three
  blocks has elapsed. The first loop of \<open>update\<close> finds no bucket that is not \<open>Past\<close>
  and leaves \<open>startIdx\<close> at 0: the bucket from 0 to 2 stays the head, and it is \<open>Past\<close>.
\<close>

theorem update_all_past_keeps_head:
  "update (frozen 100) wheel3 =
     Inr \<lparr>buckets = [NewTimespanBucket 0 2, NewTimespanBucket 2 4, NewTimespanBucket 4 6,
                      NewTimespanBucket 6 8], blockSize = 2, numBlocks = 3\<rparr> \<and>
   Past 100 (NewTimespanBucket 0 2) \<and>
   \<not> 100 < endTime (NewTimespanBucket 0 2)"
  by code_simp

text \<open>
  Where some bucket is not \<open>Past\<close>, and the clock does not advance during the call, the
  head bucket after \<open>update\<close> is not \<open>Past\<close>: the current time is at or before its end.
\<close>

lemma update_head_not_past:
  assumes "\<exists>b\<in>set (buckets s). \<not> Past now b"
  shows "\<exists>s1. update (frozen now) s = Inr s1 \<and> \<not> Past now (buckets s1 ! 0) \<and>
     now \<le> endTime (buckets s1 ! 0)"
proof -
  from assms obtain j where j: "j < length (buckets s)" "\<not> Past now (buckets s ! j)"
    by (auto simp: in_set_conv_nth)
  then have "buckets s \<noteq> []" by auto
  then obtain s1 where up: "update (frozen now) s = Inr s1"
    using update_Inr_iff [of "frozen now" s] by blast
  from j have "\<not> Past (frozen now (0 + j)) (buckets s ! j)" by (simp add: frozen_def)
  from scanStart_live [of j "buckets s" "frozen now" 0, OF j(1) this]
  have "\<not> Past now (buckets s ! scanStart (frozen now) 0 (buckets s))"
    by (simp add: frozen_def)
  then have "\<not> Past now (buckets s1 ! 0)"
    using update_head(2) [OF up] by (simp add: Past_def)
  then show ?thesis using up by (auto simp: Past_def)
qed

text \<open>
  Its end can be the current time: at time 2 the bucket from 0 to 2 stays the head.
\<close>

lemma update_head_at_end:
  "update (frozen 2) wheel3 =
     Inr \<lparr>buckets = [NewTimespanBucket 0 2, NewTimespanBucket 2 4, NewTimespanBucket 4 6,
                      NewTimespanBucket 6 8], blockSize = 2, numBlocks = 3\<rparr> \<and>
   \<not> 2 < endTime (NewTimespanBucket 0 2)"
  by code_simp

subsection \<open>AddReminder\<close>

text \<open>
  C6 (the code at a failing input). \<open>NewScheduler\<close> with a block size of 10, three
  blocks and clock readings 0, 3 and 6 builds the buckets from 0 to 10, from 13 to 23
  and from 26 to 36. \<open>AddReminder\<close> at time 7 of an item due at 11 stores it in no
  bucket, and 11 is neither the start nor the end of a bucket.
\<close>

theorem AddReminder_drops_item_in_gap:
  "NewScheduler (linearClock 0 3) 10 3 =
     \<lparr>buckets = [NewTimespanBucket 0 10, NewTimespanBucket 13 23, NewTimespanBucket 26 36],
      blockSize = 10, numBlocks = 3\<rparr> \<and>
   AddReminder (frozen 7) \<lparr>DueTime = 11, Id_str = ''A''\<rparr> (NewScheduler (linearClock 0 3) 10 3) =
     Inr \<lparr>buckets = [\<lparr>startTime = 0, endTime = 10, elements = []\<rparr>,
                      \<lparr>startTime = 13, endTime = 23, elements = []\<rparr>,
                      \<lparr>startTime = 26, endTime = 36, elements = []\<rparr>,
                      \<lparr>startTime = 36, endTime = 46, elements = []\<rparr>],
          blockSize = 10, numBlocks = 3\<rparr> \<and>
   (11::int) \<notin> {0, 10, 13, 23, 26, 36, 46}"
  by code_simp

text \<open>
  \<open>AddEntity\<close> appends the item to the bucket's elements and keeps the bounds.
\<close>

lemma AddEntity_appends:
  "startTime (AddEntity entity b) = startTime b \<and> endTime (AddEntity entity b) = endTime b \<and>
   elements (AddEntity entity b) = elements b @ [entity]"
  by (simp add: AddEntity_def)

text \<open>
  On a wheel whose buckets are contiguous and proper, with a positive block size:
  after \<open>update\<close> (state \<open>s1\<close>) the item goes to the head bucket if that one \<open>IsAfter\<close>
  the due time, else to the tail bucket if that one \<open>IsBefore\<close> it, else to the bucket
  that \<open>Contains\<close> it, which is unique; every other bucket is as it was. In the third
  case no bucket receives the item exactly when no bucket contains the due time, and
  that is exactly when the due time is the start or the end of a bucket.
\<close>

lemma AddReminder_places_item:
  assumes "buckets s \<noteq> []" and "contiguous (buckets s)" and "proper (buckets s)"
    and "0 < blockSize s"
  shows "\<exists>s1 s2. update clk s = Inr s1 \<and> AddReminder clk entity s = Inr s2 \<and>
     blockSize s2 = blockSize s1 \<and> numBlocks s2 = numBlocks s1 \<and>
     length (buckets s2) = length (buckets s1) \<and>
     (if IsAfter (buckets s1 ! 0) (DueTime entity) then
        buckets s2 = (buckets s1)[0 := AddEntity entity (buckets s1 ! 0)]
      else if IsBefore (buckets s1 ! (length (buckets s1) - 1)) (DueTime entity) then
        buckets s2 = (buckets s1)[length (buckets s1) - 1 :=
                        AddEntity entity (buckets s1 ! (length (buckets s1) - 1))]
      else
        (\<forall>i<length (buckets s1). Contains (buckets s1 ! i) (DueTime entity) \<longrightarrow>
           buckets s2 = (buckets s1)[i := AddEntity entity (buckets s1 ! i)] \<and>
           (\<forall>j<length (buckets s1). Contains (buckets s1 ! j) (DueTime entity) \<longrightarrow> j = i)) \<and>
        ((\<forall>i<length (buckets s1). \<not> Contains (buckets s1 ! i) (DueTime entity)) \<longleftrightarrow>
           buckets s2 = buckets s1) \<and>
        ((\<forall>i<length (buckets s1). \<not> Contains (buckets s1 ! i) (DueTime entity)) \<longleftrightarrow>
           (\<exists>i<length (buckets s1). DueTime entity = startTime (buckets s1 ! i) \<or>
              DueTime entity = endTime (buckets s1 ! i))))"
proof -
  from assms(1) obtain s1 where up: "update clk s = Inr s1"
    using update_Inr_iff [of clk s] by blast
  define bs where "bs = buckets s1"
  define d where "d = DueTime entity"
  define n where "n = length bs"
  have cont: "contiguous bs" unfolding bs_def using up assms(2) by (rule update_contiguous)
  have ordr: "proper bs" unfolding bs_def using up assms(3,4) by (rule update_proper)
  have n: "0 < n" unfolding n_def bs_def using update_length [OF up] by simp
  define s2 where "s2 = s1\<lparr>buckets :=
       (if IsAfter (bs ! 0) d then bs[0 := AddEntity entity (bs ! 0)]
        else if IsBefore (bs ! (n - 1)) d then bs[n - 1 := AddEntity entity (bs ! (n - 1))]
        else addToContaining entity bs)\<rparr>"
  have add: "AddReminder clk entity s = Inr s2"
    unfolding s2_def bs_def d_def n_def using up by (rule AddReminder_Inr)
  have fields: "blockSize s2 = blockSize s1" "numBlocks s2 = numBlocks s1"
    by (simp_all add: s2_def)
  have len: "length (buckets s2) = n"
    by (simp add: s2_def n_def length_addToContaining)
  have third: "(\<forall>i<n. Contains (bs ! i) d \<longrightarrow>
           buckets s2 = bs[i := AddEntity entity (bs ! i)] \<and>
           (\<forall>j<n. Contains (bs ! j) d \<longrightarrow> j = i)) \<and>
        ((\<forall>i<n. \<not> Contains (bs ! i) d) \<longleftrightarrow> buckets s2 = bs) \<and>
        ((\<forall>i<n. \<not> Contains (bs ! i) d) \<longleftrightarrow>
           (\<exists>i<n. d = startTime (bs ! i) \<or> d = endTime (bs ! i)))"
    if na: "\<not> IsAfter (bs ! 0) d" and nb: "\<not> IsBefore (bs ! (n - 1)) d"
  proof -
    from na nb have b2: "buckets s2 = addToContaining entity bs" by (simp add: s2_def)
    have uniq: "j = i" if "i < n" "j < n" "Contains (bs ! i) d" "Contains (bs ! j) d" for i j
      using Contains_unique [OF cont ordr] that unfolding n_def by blast
    have one: "buckets s2 = bs[i := AddEntity entity (bs ! i)]"
      if i: "i < n" "Contains (bs ! i) d" for i
    proof -
      have "\<forall>j<i. \<not> Contains (bs ! j) (DueTime entity)"
      proof (intro allI impI)
        fix j assume "j < i"
        with i uniq [of i j] show "\<not> Contains (bs ! j) (DueTime entity)"
          unfolding d_def by auto
      qed
      with i show ?thesis
        unfolding b2 n_def d_def by (intro addToContaining_first) simp_all
    qed
    have zero: "buckets s2 = bs" if "\<forall>i<n. \<not> Contains (bs ! i) d"
      unfolding b2 using that unfolding n_def d_def by (rule addToContaining_none)
    have changed: "buckets s2 \<noteq> bs" if i: "i < n" "Contains (bs ! i) d" for i
    proof
      assume "buckets s2 = bs"
      with one [OF i] have "bs[i := AddEntity entity (bs ! i)] ! i = bs ! i" by simp
      with i(1) show False by (simp add: n_def AddEntity_neq)
    qed
    have bdry: "\<exists>i<n. d = startTime (bs ! i) \<or> d = endTime (bs ! i)"
      if nc: "\<forall>i<n. \<not> Contains (bs ! i) d"
    proof -
      from na have lo: "startTime (bs ! 0) \<le> d" by (simp add: IsAfter_def)
      from nb have hi: "d \<le> endTime (bs ! (n - 1))" by (simp add: IsBefore_def)
      from n have "n - 1 < length bs" by (simp add: n_def)
      from uncontained_is_boundary [OF cont nc [unfolded n_def] this lo hi]
      obtain i where "i \<le> n - 1" "d = startTime (bs ! i) \<or> d = endTime (bs ! i)" by blast
      with n show ?thesis by (intro exI [of _ i]) auto
    qed
    have nocont: "\<not> Contains (bs ! j) d"
      if "i < n" "d = startTime (bs ! i) \<or> d = endTime (bs ! i)" "j < n" for i j
      using boundary_not_contained [OF cont ordr] that unfolding n_def by blast
    show ?thesis
      using uniq one zero changed bdry nocont by blast
  qed
  have "if IsAfter (bs ! 0) d then buckets s2 = bs[0 := AddEntity entity (bs ! 0)]
      else if IsBefore (bs ! (n - 1)) d then
        buckets s2 = bs[n - 1 := AddEntity entity (bs ! (n - 1))]
      else
        (\<forall>i<n. Contains (bs ! i) d \<longrightarrow>
           buckets s2 = bs[i := AddEntity entity (bs ! i)] \<and>
           (\<forall>j<n. Contains (bs ! j) d \<longrightarrow> j = i)) \<and>
        ((\<forall>i<n. \<not> Contains (bs ! i) d) \<longleftrightarrow> buckets s2 = bs) \<and>
        ((\<forall>i<n. \<not> Contains (bs ! i) d) \<longleftrightarrow>
           (\<exists>i<n. d = startTime (bs ! i) \<or> d = endTime (bs ! i)))"
  proof (cases "IsAfter (bs ! 0) d")
    case True
    then show ?thesis by (simp add: s2_def)
  next
    case na: False
    show ?thesis
    proof (cases "IsBefore (bs ! (n - 1)) d")
      case True
      with na show ?thesis by (simp add: s2_def)
    next
      case False
      show ?thesis
        by (simp only: na False if_False) (rule third [OF na False])
    qed
  qed
  then show ?thesis
    using up add fields len unfolding bs_def d_def n_def by blast
qed

text \<open>
  That lemma at the wheel of three blocks of width 2 built at time 0 and an item due
  at time 3, which lands in the bucket at index 1.
\<close>

lemma AddReminder_places_item_example:
  "buckets (NewScheduler (frozen 0) 2 3) \<noteq> [] \<and>
   contiguous (buckets (NewScheduler (frozen 0) 2 3)) \<and>
   proper (buckets (NewScheduler (frozen 0) 2 3)) \<and>
   0 < blockSize (NewScheduler (frozen 0) 2 3) \<and>
   (\<exists>s1 s2. update (frozen 0) (NewScheduler (frozen 0) 2 3) = Inr s1 \<and>
      AddReminder (frozen 0) \<lparr>DueTime = 3, Id_str = ''A''\<rparr> (NewScheduler (frozen 0) 2 3) = Inr s2 \<and>
      Contains (buckets s1 ! 1) 3 \<and>
      buckets s2 = (buckets s1)[1 := AddEntity \<lparr>DueTime = 3, Id_str = ''A''\<rparr> (buckets s1 ! 1)])"
proof -
  have h1: "buckets (NewScheduler (frozen 0) 2 3) \<noteq> []" by code_simp
  have h2: "contiguous (buckets (NewScheduler (frozen 0) 2 3))" by code_simp
  have h3: "proper (buckets (NewScheduler (frozen 0) 2 3))" by code_simp
  have h4: "0 < blockSize (NewScheduler (frozen 0) 2 3)" by code_simp
  have u: "update (frozen 0) (NewScheduler (frozen 0) 2 3) =
      Inr \<lparr>buckets = [NewTimespanBucket 0 2, NewTimespanBucket 2 4, NewTimespanBucket 4 6,
                       NewTimespanBucket 6 8], blockSize = 2, numBlocks = 3\<rparr>"
    by code_simp
  from AddReminder_places_item [OF h1 h2 h3 h4, of "frozen 0" "\<lparr>DueTime = 3, Id_str = ''A''\<rparr>"]
  obtain s1 s2 where
    r: "update (frozen 0) (NewScheduler (frozen 0) 2 3) = Inr s1"
      "AddReminder (frozen 0) \<lparr>DueTime = 3, Id_str = ''A''\<rparr> (NewScheduler (frozen 0) 2 3) = Inr s2"
    and c: "if IsAfter (buckets s1 ! 0) (DueTime \<lparr>DueTime = 3, Id_str = ''A''\<rparr>) then
        buckets s2 = (buckets s1)[0 := AddEntity \<lparr>DueTime = 3, Id_str = ''A''\<rparr> (buckets s1 ! 0)]
      else if IsBefore (buckets s1 ! (length (buckets s1) - 1)) (DueTime \<lparr>DueTime = 3, Id_str = ''A''\<rparr>) then
        buckets s2 = (buckets s1)[length (buckets s1) - 1 :=
                        AddEntity \<lparr>DueTime = 3, Id_str = ''A''\<rparr> (buckets s1 ! (length (buckets s1) - 1))]
      else
        (\<forall>i<length (buckets s1). Contains (buckets s1 ! i) (DueTime \<lparr>DueTime = 3, Id_str = ''A''\<rparr>) \<longrightarrow>
           buckets s2 = (buckets s1)[i := AddEntity \<lparr>DueTime = 3, Id_str = ''A''\<rparr> (buckets s1 ! i)] \<and>
           (\<forall>j<length (buckets s1). Contains (buckets s1 ! j) (DueTime \<lparr>DueTime = 3, Id_str = ''A''\<rparr>) \<longrightarrow> j = i)) \<and>
        ((\<forall>i<length (buckets s1). \<not> Contains (buckets s1 ! i) (DueTime \<lparr>DueTime = 3, Id_str = ''A''\<rparr>)) \<longleftrightarrow>
           buckets s2 = buckets s1) \<and>
        ((\<forall>i<length (buckets s1). \<not> Contains (buckets s1 ! i) (DueTime \<lparr>DueTime = 3, Id_str = ''A''\<rparr>)) \<longleftrightarrow>
           (\<exists>i<length (buckets s1). DueTime \<lparr>DueTime = 3, Id_str = ''A''\<rparr> = startTime (buckets s1 ! i) \<or>
              DueTime \<lparr>DueTime = 3, Id_str = ''A''\<rparr> = endTime (buckets s1 ! i)))"
    by blast
  from r(1) u have "s1 = \<lparr>buckets = [NewTimespanBucket 0 2, NewTimespanBucket 2 4,
      NewTimespanBucket 4 6, NewTimespanBucket 6 8], blockSize = 2, numBlocks = 3\<rparr>" by simp
  then have s1: "buckets s1 = [NewTimespanBucket 0 2, NewTimespanBucket 2 4,
      NewTimespanBucket 4 6, NewTimespanBucket 6 8]" by simp
  have na: "\<not> IsAfter (buckets s1 ! 0) 3" by (simp add: s1 IsAfter_def NewTimespanBucket_def)
  have nb: "\<not> IsBefore (buckets s1 ! (length (buckets s1) - 1)) 3"
    by (simp add: s1 IsBefore_def NewTimespanBucket_def)
  have ct: "Contains (buckets s1 ! 1) 3" by (simp add: s1 Contains_def NewTimespanBucket_def)
  have l: "1 < length (buckets s1)" by (simp add: s1)
  from c na nb have "\<forall>i<length (buckets s1). Contains (buckets s1 ! i) 3 \<longrightarrow>
           buckets s2 = (buckets s1)[i := AddEntity \<lparr>DueTime = 3, Id_str = ''A''\<rparr> (buckets s1 ! i)]"
    by simp
  with l ct have "buckets s2 = (buckets s1)[1 := AddEntity \<lparr>DueTime = 3, Id_str = ''A''\<rparr> (buckets s1 ! 1)]"
    by blast
  with r ct h1 h2 h3 h4 show ?thesis by blast
qed

subsection \<open>Contiguity at construction\<close>

text \<open>
  C7 (the code at a failing input). \<open>NewScheduler\<close> reads the clock in every iteration
  of its loop. With a clock that advances by one nanosecond between the readings, the
  first bucket ends at 2 and the second starts at 3.
\<close>

theorem NewScheduler_leaves_gaps:
  "NewScheduler ticking 2 3 =
     \<lparr>buckets = [NewTimespanBucket 0 2, NewTimespanBucket 3 5, NewTimespanBucket 6 8],
      blockSize = 2, numBlocks = 3\<rparr> \<and>
   endTime (buckets (NewScheduler ticking 2 3) ! 0) = 2 \<and>
   startTime (buckets (NewScheduler ticking 2 3) ! 1) = 3"
  by code_simp

subsection \<open>Past\<close>

text \<open>
  C8 (as the code has it). \<open>Past\<close>, the elapsed test of a bucket, is true exactly when
  the clock reading is strictly greater than the bucket's end.
\<close>

theorem Past_iff_after_end: "Past now t \<longleftrightarrow> endTime t < now"
  by (simp add: Past_def)

text \<open>
  At a reading equal to the end, \<open>Past\<close> is false although the reading is greater than
  or equal to the end.
\<close>

theorem Past_at_end_counterexample:
  "\<not> (Past 5 (NewTimespanBucket 3 5) \<longleftrightarrow> 5 \<ge> endTime (NewTimespanBucket 3 5))"
  by (simp add: Past_def NewTimespanBucket_def)

subsection \<open>Construction with no blocks\<close>

text \<open>
  C9 (as the code has it). \<open>NewScheduler\<close> with \<open>numBlocks \<le> 0\<close> returns a wheel
  without buckets, and every operation on that wheel panics in \<open>update\<close> with an index
  out of range.
\<close>

theorem NewScheduler_nonpositive:
  assumes "n \<le> 0"
  shows "NewScheduler clk bsz n = \<lparr>buckets = [], blockSize = bsz, numBlocks = n\<rparr> \<and>
     update clk' (NewScheduler clk bsz n) = Inl IndexOutOfRange \<and>
     AddReminder clk' entity (NewScheduler clk bsz n) = Inl IndexOutOfRange \<and>
     Due clk' (NewScheduler clk bsz n) = Inl IndexOutOfRange \<and>
     Dump clk' (NewScheduler clk bsz n) = Inl IndexOutOfRange"
proof -
  from assms have "\<not> 0 < n" by simp
  then have new: "NewScheduler clk bsz n = \<lparr>buckets = [], blockSize = bsz, numBlocks = n\<rparr>"
    by (simp add: NewScheduler_def NewScheduler_loop_done)
  then have "buckets (NewScheduler clk bsz n) = []" by simp
  then have "update clk' (NewScheduler clk bsz n) = Inl IndexOutOfRange" by (rule update_Nil)
  with new show ?thesis by (simp add: AddReminder_def Due_def Dump_def)
qed

text \<open>
  The theorem at \<open>numBlocks = -1\<close>.
\<close>

theorem NewScheduler_nonpositive_witness:
  "(-1::int) \<le> 0 \<and>
   NewScheduler (frozen 0) 2 (-1) = \<lparr>buckets = [], blockSize = 2, numBlocks = -1\<rparr> \<and>
   Dump (frozen 0) (NewScheduler (frozen 0) 2 (-1)) = Inl IndexOutOfRange"
proof -
  have h: "(-1::int) \<le> 0" by simp
  from NewScheduler_nonpositive [OF h, of "frozen 0" 2 "frozen 0"] h show ?thesis by blast
qed

text \<open>
  With \<open>numBlocks = 0\<close> the constructor returns a wheel, and the first
  \<open>AddReminder\<close> panics.
\<close>

theorem NewScheduler_zero_counterexample:
  "NewScheduler (frozen 0) 2 0 = \<lparr>buckets = [], blockSize = 2, numBlocks = 0\<rparr> \<and>
   AddReminder (frozen 0) \<lparr>DueTime = 1, Id_str = ''A''\<rparr> (NewScheduler (frozen 0) 2 0) =
     Inl IndexOutOfRange"
  by code_simp

subsection \<open>Only elapsed buckets are dropped\<close>

text \<open>
  C10. When \<open>update\<close> succeeds, \<open>startIdx\<close> is the index of a bucket; every bucket
  below \<open>startIdx\<close>, the ones dropped, was \<open>Past\<close> at the reading at which the loop
  tested it; a bucket that is not \<open>Past\<close> at its reading is at or after \<open>startIdx\<close>;
  and every bucket at or after \<open>startIdx\<close> is still in the wheel, \<open>startIdx\<close> places
  further to the front, with its bounds and with its elements in front of any
  salvaged ones.
\<close>

theorem update_drops_only_past:
  assumes "update clk s = Inr s1"
  shows "scanStart clk 0 (buckets s) < length (buckets s) \<and>
     length (buckets s1) =
       length (buckets s) - scanStart clk 0 (buckets s) + (scanStart clk 0 (buckets s) + 1) \<and>
     (\<forall>i<scanStart clk 0 (buckets s). Past (clk i) (buckets s ! i)) \<and>
     (\<forall>i<length (buckets s). \<not> Past (clk i) (buckets s ! i) \<longrightarrow>
        scanStart clk 0 (buckets s) \<le> i) \<and>
     (\<forall>i<length (buckets s). scanStart clk 0 (buckets s) \<le> i \<longrightarrow>
        startTime (buckets s1 ! (i - scanStart clk 0 (buckets s))) = startTime (buckets s ! i) \<and>
        endTime (buckets s1 ! (i - scanStart clk 0 (buckets s))) = endTime (buckets s ! i) \<and>
        take (length (elements (buckets s ! i)))
          (elements (buckets s1 ! (i - scanStart clk 0 (buckets s)))) = elements (buckets s ! i))"
proof -
  define k where "k = scanStart clk 0 (buckets s)"
  from assms have ne: "buckets s \<noteq> []" using update_Nil [of s clk] by auto
  have k: "k < length (buckets s)" unfolding k_def using ne by (rule scanStart_lt)
  have len: "length (buckets s1) = length (buckets s) - k + (k + 1)"
    using update_length [OF assms] k by simp
  have dropped: "\<forall>i<k. Past (clk i) (buckets s ! i)"
  proof (intro allI impI)
    fix i assume "i < k"
    with scanStart_past [of 0 i clk "buckets s"] show "Past (clk i) (buckets s ! i)"
      by (simp add: k_def)
  qed
  have live: "\<forall>i<length (buckets s). \<not> Past (clk i) (buckets s ! i) \<longrightarrow> k \<le> i"
  proof (intro allI impI)
    fix i assume "i < length (buckets s)" "\<not> Past (clk i) (buckets s ! i)"
    with scanStart_live [of i "buckets s" clk 0] show "k \<le> i" by (simp add: k_def)
  qed
  have kept: "\<forall>i<length (buckets s). k \<le> i \<longrightarrow>
        startTime (buckets s1 ! (i - k)) = startTime (buckets s ! i) \<and>
        endTime (buckets s1 ! (i - k)) = endTime (buckets s ! i) \<and>
        take (length (elements (buckets s ! i))) (elements (buckets s1 ! (i - k))) =
          elements (buckets s ! i)"
  proof (intro allI impI)
    fix i assume i: "i < length (buckets s)" "k \<le> i"
    show "startTime (buckets s1 ! (i - k)) = startTime (buckets s ! i) \<and>
        endTime (buckets s1 ! (i - k)) = endTime (buckets s ! i) \<and>
        take (length (elements (buckets s ! i))) (elements (buckets s1 ! (i - k))) =
          elements (buckets s ! i)"
    proof (cases "i = k")
      case True
      with update_head [OF assms] show ?thesis by (simp add: k_def)
    next
      case False
      with i have "k < i" by simp
      with update_retained [OF assms, of i] i(1) show ?thesis by (simp add: k_def)
    qed
  qed
  from k len dropped live kept show ?thesis unfolding k_def by (intro conjI)
qed

text \<open>
  The theorem at the wheel of three blocks, at time 3: the bucket from 0 to 2 is
  dropped and was \<open>Past\<close>.
\<close>

theorem update_drops_only_past_witness:
  "update (frozen 3) wheel3 =
     Inr \<lparr>buckets = [NewTimespanBucket 2 4, NewTimespanBucket 4 6, NewTimespanBucket 6 8,
                      NewTimespanBucket 8 10], blockSize = 2, numBlocks = 3\<rparr> \<and>
   scanStart (frozen 3) 0 (buckets wheel3) = 1 \<and>
   Past (frozen 3 0) (buckets wheel3 ! 0)"
proof -
  have u: "update (frozen 3) wheel3 =
     Inr \<lparr>buckets = [NewTimespanBucket 2 4, NewTimespanBucket 4 6, NewTimespanBucket 6 8,
                      NewTimespanBucket 8 10], blockSize = 2, numBlocks = 3\<rparr>"
    by code_simp
  have k: "scanStart (frozen 3) 0 (buckets wheel3) = 1" by code_simp
  from update_drops_only_past [OF u]
  have "\<forall>i<scanStart (frozen 3) 0 (buckets wheel3). Past (frozen 3 i) (buckets wheel3 ! i)"
    by blast
  with k have "Past (frozen 3 0) (buckets wheel3 ! 0)" by simp
  with u k show ?thesis by blast
qed

end
